theory Spec2Isabelle
  imports Main "HOL-Library.Monad_Syntax"
begin

section \<open>The search core of Chess.py\<close>

text \<open>
  The verified code is the search core of \<^verbatim>\<open>src/Chess.py\<close>: \<^verbatim>\<open>evaluate_board\<close>
  (lines 32-36), \<^verbatim>\<open>minimax\<close> (lines 39-62) and \<^verbatim>\<open>get_best_move\<close> (lines 65-78).
  The board is an object of the external chess rules library; the code only
  queries it (\<^verbatim>\<open>pieces\<close>, \<^verbatim>\<open>is_game_over\<close>, \<^verbatim>\<open>legal_moves\<close>, \<^verbatim>\<open>turn\<close>) and mutates it
  through \<^verbatim>\<open>push\<close> and \<^verbatim>\<open>pop\<close>. The library is not part of the repository, so it
  is a parameter of the model: a record of functions over an arbitrary board type
  \<open>'b\<close> and move type \<open>'m\<close>. The in-place mutation of the one shared board is
  explicit state passing: every function that touches the board returns it.

  Not modelled: the interpreter's recursion limit and running time.
\<close>

subsection \<open>Scores\<close>

text \<open>
  A score is a Python \<^verbatim>\<open>int\<close> (what \<^verbatim>\<open>evaluate_board\<close> returns) or one of the two
  floats \<^verbatim>\<open>float('-inf')\<close>, \<^verbatim>\<open>float('inf')\<close> that initialise the running best, alpha
  and beta. Python compares the two kinds exactly.
\<close>

datatype score = NInf | Fin int | PInf

fun score_le :: "score \<Rightarrow> score \<Rightarrow> bool" where
  "score_le NInf y = True"
| "score_le (Fin a) NInf = False"
| "score_le (Fin a) (Fin b) = (a \<le> b)"
| "score_le (Fin a) PInf = True"
| "score_le PInf PInf = True"
| "score_le PInf y = False"

instantiation score :: linorder
begin

definition less_eq_score :: "score \<Rightarrow> score \<Rightarrow> bool" where
  "less_eq_score x y = score_le x y"

definition less_score :: "score \<Rightarrow> score \<Rightarrow> bool" where
  "less_score x y = (score_le x y \<and> \<not> score_le y x)"

instance
proof
  fix x y z :: score
  show "(x < y) = (x \<le> y \<and> \<not> y \<le> x)"
    by (simp add: less_eq_score_def less_score_def)
  show "x \<le> x"
    by (cases x) (simp_all add: less_eq_score_def)
  show "x \<le> y \<Longrightarrow> y \<le> z \<Longrightarrow> x \<le> z"
    by (cases x; cases y; cases z) (simp_all add: less_eq_score_def)
  show "x \<le> y \<Longrightarrow> y \<le> x \<Longrightarrow> x = y"
    by (cases x; cases y) (simp_all add: less_eq_score_def)
  show "x \<le> y \<or> y \<le> x"
    by (cases x; cases y) (auto simp add: less_eq_score_def)
qed

end

text \<open>
  Python's two-argument \<^verbatim>\<open>max(a, b)\<close> keeps \<open>a\<close> unless \<open>b > a\<close>, and \<^verbatim>\<open>min(a, b)\<close>
  keeps \<open>a\<close> unless \<open>b < a\<close>.
\<close>

definition py_max :: "score \<Rightarrow> score \<Rightarrow> score" where
  "py_max a b = (if a < b then b else a)"

definition py_min :: "score \<Rightarrow> score \<Rightarrow> score" where
  "py_min a b = (if b < a then b else a)"

subsection \<open>The rules library as a parameter\<close>

text \<open>
  \<open>pieces R board piece_type color\<close> is the set of squares of
  \<^verbatim>\<open>board.pieces(piece_type, color)\<close>, whose \<^verbatim>\<open>len\<close> is its cardinality;
  \<open>legal_moves R board\<close> is \<^verbatim>\<open>list(board.legal_moves)\<close>, in the library's order;
  \<open>push R move board\<close> and \<open>pop R board\<close> are the board after \<^verbatim>\<open>board.push(move)\<close>
  and after \<^verbatim>\<open>board.pop()\<close>; \<open>turn R board\<close> is \<^verbatim>\<open>board.turn\<close>.
\<close>

record ('b, 'm) rules =
  pieces :: "'b \<Rightarrow> nat \<Rightarrow> bool \<Rightarrow> nat set"
  is_game_over :: "'b \<Rightarrow> bool"
  legal_moves :: "'b \<Rightarrow> 'm list"
  push :: "'m \<Rightarrow> 'b \<Rightarrow> 'b"
  pop :: "'b \<Rightarrow> 'b"
  turn :: "'b \<Rightarrow> bool"

text \<open>
  Modelled from the spec: the library's constants for the two colours and the six
  piece kinds (pawn, knight, bishop, rook, queen, king), which \<^verbatim>\<open>range(1, 7)\<close>
  enumerates; \<^verbatim>\<open>board.turn\<close> is true when White is to move.
\<close>

definition WHITE :: bool where "WHITE = True"
definition BLACK :: bool where "BLACK = False"

definition PAWN :: nat where "PAWN = 1"
definition KNIGHT :: nat where "KNIGHT = 2"
definition BISHOP :: nat where "BISHOP = 3"
definition ROOK :: nat where "ROOK = 4"
definition QUEEN :: nat where "QUEEN = 5"
definition KING :: nat where "KING = 6"

subsection \<open>evaluate_board\<close>

text \<open>
  \<^verbatim>\<open>
  def evaluate_board(board):
      eval = 0
      for piece_type in range(1, 7):
          eval += len(board.pieces(piece_type, chess.WHITE)) - len(board.pieces(piece_type, chess.BLACK))
      return eval
  \<close>
\<close>

fun evaluate_loop :: "('b, 'm) rules \<Rightarrow> 'b \<Rightarrow> int \<Rightarrow> nat list \<Rightarrow> int" where
  "evaluate_loop R board eval [] = eval"
| "evaluate_loop R board eval (piece_type # rest) =
     evaluate_loop R board
       (eval + (int (card (pieces R board piece_type WHITE))
                - int (card (pieces R board piece_type BLACK)))) rest"

definition evaluate_board :: "('b, 'm) rules \<Rightarrow> 'b \<Rightarrow> int" where
  "evaluate_board R board = evaluate_loop R board 0 [1..<7]"

subsection \<open>minimax\<close>

text \<open>
  \<^verbatim>\<open>
  def minimax(board, depth, alpha, beta, is_maximizing):
      if depth == 0 or board.is_game_over():
          return evaluate_board(board)
      legal_moves = list(board.legal_moves)
      best_eval = float('-inf') if is_maximizing else float('inf')
      for move in legal_moves:
          board.push(move)
          eval = minimax(board, depth - 1, alpha, beta, not is_maximizing)
          board.pop()
          if is_maximizing:
              best_eval = max(best_eval, eval)
              alpha = max(alpha, eval)
          else:
              best_eval = min(best_eval, eval)
              beta = min(beta, eval)
          if beta <= alpha:
              break  # Alpha-beta pruning
      return best_eval
  \<close>
  The \<^verbatim>\<open>for\<close> loop is \<open>minimax_loop\<close>: its arguments are the loop's variables
  (the board, \<open>alpha\<close>, \<open>beta\<close>, \<open>best_eval\<close>) and the moves not yet visited; the
  recursive call of \<^verbatim>\<open>minimax\<close> is its first argument. \<open>depth\<close> is a Python
  \<^verbatim>\<open>int\<close>; with a negative depth the test \<^verbatim>\<open>depth == 0\<close> never holds and the
  recursion may not end, so the result is an \<open>option\<close>: \<open>None\<close> is a call that
  does not return, \<open>Some (value, board)\<close> is the returned value and the board as
  the call leaves it.
\<close>

fun minimax_loop ::
  "('b \<Rightarrow> int \<Rightarrow> score \<Rightarrow> score \<Rightarrow> bool \<Rightarrow> (score \<times> 'b) option) \<Rightarrow>
   ('b, 'm) rules \<Rightarrow> 'b \<Rightarrow> int \<Rightarrow> score \<Rightarrow> score \<Rightarrow> bool \<Rightarrow> score \<Rightarrow> 'm list \<Rightarrow>
   (score \<times> 'b) option" where
  "minimax_loop rec R board depth alpha beta is_maximizing best_eval [] =
     Some (best_eval, board)"
| "minimax_loop rec R board depth alpha beta is_maximizing best_eval (move # moves) =
     do {
       (eval, board1) \<leftarrow> rec (push R move board) (depth - 1) alpha beta (\<not> is_maximizing);
       let board2 = pop R board1;
       let best_eval' = (if is_maximizing then py_max best_eval eval else py_min best_eval eval);
       let alpha' = (if is_maximizing then py_max alpha eval else alpha);
       let beta' = (if is_maximizing then beta else py_min beta eval);
       if beta' \<le> alpha' then Some (best_eval', board2)
       else minimax_loop rec R board2 depth alpha' beta' is_maximizing best_eval' moves
     }"

lemma minimax_loop_mono [partial_function_mono]:
  assumes "\<And>b d a be m. mono_option (\<lambda>f. F f b d a be m)"
  shows "mono_option (\<lambda>f. minimax_loop (F f) R board depth alpha beta is_max best moves)"
proof (induction moves arbitrary: board alpha beta best)
  case Nil
  show ?case by (simp add: option.const_mono)
next
  case (Cons move moves)
  show ?case
    unfolding minimax_loop.simps Let_def
    by (intro partial_function_mono assms Cons.IH | simp only: split_def)+
qed

partial_function (option) minimax ::
  "('b, 'm) rules \<Rightarrow> 'b \<Rightarrow> int \<Rightarrow> score \<Rightarrow> score \<Rightarrow> bool \<Rightarrow> (score \<times> 'b) option" where
  "minimax R board depth alpha beta is_maximizing =
     (if depth = 0 \<or> is_game_over R board then Some (Fin (evaluate_board R board), board)
      else minimax_loop (minimax R) R board depth alpha beta is_maximizing
             (if is_maximizing then NInf else PInf) (legal_moves R board))"

declare minimax.simps [code]

subsection \<open>get_best_move\<close>

text \<open>
  \<^verbatim>\<open>
  def get_best_move(board, depth):
      best_move = None
      best_value = float('-inf') if board.turn else float('inf')
      for move in board.legal_moves:
          board.push(move)
          board_value = minimax(board, depth - 1, float('-inf'), float('inf'), not board.turn)
          board.pop()
          if (board.turn and board_value > best_value) or (not board.turn and board_value < best_value):
              best_value = board_value
              best_move = move
      return best_move
  \<close>
  The argument \<^verbatim>\<open>not board.turn\<close> is evaluated after \<^verbatim>\<open>board.push(move)\<close>, so it
  reads the turn of the pushed board; the two \<^verbatim>\<open>board.turn\<close> of the comparison
  are read after \<^verbatim>\<open>board.pop()\<close>. The moves are those of the board at loop entry.
\<close>

fun get_best_move_loop ::
  "('b, 'm) rules \<Rightarrow> 'b \<Rightarrow> int \<Rightarrow> 'm option \<Rightarrow> score \<Rightarrow> 'm list \<Rightarrow> ('m option \<times> 'b) option" where
  "get_best_move_loop R board depth best_move best_value [] = Some (best_move, board)"
| "get_best_move_loop R board depth best_move best_value (move # moves) =
     do {
       let board1 = push R move board;
       (board_value, board2) \<leftarrow> minimax R board1 (depth - 1) NInf PInf (\<not> turn R board1);
       let board3 = pop R board2;
       if (turn R board3 \<and> best_value < board_value) \<or> (\<not> turn R board3 \<and> board_value < best_value)
       then get_best_move_loop R board3 depth (Some move) board_value moves
       else get_best_move_loop R board3 depth best_move best_value moves
     }"

definition get_best_move :: "('b, 'm) rules \<Rightarrow> 'b \<Rightarrow> int \<Rightarrow> ('m option \<times> 'b) option" where
  "get_best_move R board depth =
     get_best_move_loop R board depth None (if turn R board then NInf else PInf)
       (legal_moves R board)"

subsection \<open>What the code relies on from the rules library\<close>

text \<open>
  The library's contract, as far as the search uses it: \<^verbatim>\<open>pop\<close> after
  \<^verbatim>\<open>push\<close> of a legal move gives the board back; a position that is not
  game-over has a legal move; \<^verbatim>\<open>push\<close> passes the turn to the other side.
  These are hypotheses of the theorems that need them, never axioms.
\<close>

definition undo_ok :: "('b, 'm) rules \<Rightarrow> bool" where
  "undo_ok R = (\<forall>board. \<forall>move \<in> set (legal_moves R board). pop R (push R move board) = board)"


definition push_flips_turn :: "('b, 'm) rules \<Rightarrow> bool" where
  "push_flips_turn R =
     (\<forall>board. \<forall>move \<in> set (legal_moves R board). turn R (push R move board) = (\<not> turn R board))"

subsection \<open>The unpruned minimax of the specification\<close>

text \<open>
  Following the specification's words, not the code: the exhaustive minimax of
  depth \<open>d\<close> over the game tree of the rules library, with the same evaluation at
  the leaves (depth exhausted or game over), the maximizing flag flipped at each
  ply, the running best started at minus infinity (maximizing) or plus infinity
  (minimizing), and no window and no cutoff.
\<close>

definition best_of :: "bool \<Rightarrow> score list \<Rightarrow> score" where
  "best_of mx vs =
     fold (\<lambda>v best. if mx then max best v else min best v) vs (if mx then NInf else PInf)"

fun exhaustive_minimax :: "('b, 'm) rules \<Rightarrow> 'b \<Rightarrow> nat \<Rightarrow> bool \<Rightarrow> score" where
  "exhaustive_minimax R board 0 mx = Fin (evaluate_board R board)"
| "exhaustive_minimax R board (Suc d) mx =
     (if is_game_over R board then Fin (evaluate_board R board)
      else best_of mx
             (map (\<lambda>move. exhaustive_minimax R (push R move board) d (\<not> mx))
                (legal_moves R board)))"

text \<open>
  The relation between the value \<open>v\<close> that a fail-soft search with window
  \<open>(a, b)\<close> returns and the exact value \<open>x\<close>: at or below \<open>a\<close> it is an upper
  bound of \<open>x\<close>, at or above \<open>b\<close> a lower bound, strictly inside it is \<open>x\<close>.
\<close>

definition fail_soft :: "score \<Rightarrow> score \<Rightarrow> score \<Rightarrow> score \<Rightarrow> bool" where
  "fail_soft a b v x = ((v \<le> a \<longrightarrow> x \<le> v) \<and> (b \<le> v \<longrightarrow> v \<le> x) \<and> (a < v \<and> v < b \<longrightarrow> v = x))"

subsection \<open>The move selector of the specification\<close>

text \<open>
  Following the specification's words, not the code: for each legal move at the
  root, apply it, search with \<open>depth - 1\<close>, the full window and the maximizing
  flag flipped relative to the root's side to move, undo it, and keep the move
  when its value strictly improves the best value for the root's side.
\<close>

fun select_loop_spec ::
  "('b, 'm) rules \<Rightarrow> bool \<Rightarrow> 'b \<Rightarrow> int \<Rightarrow> 'm option \<Rightarrow> score \<Rightarrow> 'm list \<Rightarrow>
   ('m option \<times> 'b) option" where
  "select_loop_spec R white board depth best_move best_value [] = Some (best_move, board)"
| "select_loop_spec R white board depth best_move best_value (move # moves) =
     do {
       (v, board2) \<leftarrow> minimax R (push R move board) (depth - 1) NInf PInf (\<not> white);
       let board3 = pop R board2;
       if (white \<and> best_value < v) \<or> (\<not> white \<and> v < best_value)
       then select_loop_spec R white board3 depth (Some move) v moves
       else select_loop_spec R white board3 depth best_move best_value moves
     }"

definition select_best_move_spec ::
  "('b, 'm) rules \<Rightarrow> 'b \<Rightarrow> int \<Rightarrow> ('m option \<times> 'b) option" where
  "select_best_move_spec R board depth =
     select_loop_spec R (turn R board) board depth None
       (if turn R board then NInf else PInf) (legal_moves R board)"

subsection \<open>A rules library over an explicit game tree\<close>

text \<open>
  A concrete instance of the parameter, on which the theorems are run: a position
  is a node of a finite tree that records how many pawns each side has (the
  other piece kinds are absent), a move is the index of a subtree, and the board
  is the stack of the nodes from the current one back to the root, which
  \<open>push\<close> extends and \<open>pop\<close> shortens (a move that is not the index of a
  subtree leads to an empty position). White is to move at the root, the game
  is over at a node without subtrees.
\<close>

datatype gtree = GNode (whites: nat) (blacks: nat) (subtrees: "gtree list")

fun cur :: "gtree list \<Rightarrow> gtree" where
  "cur [] = GNode 0 0 []"
| "cur (t # ts) = t"

definition tree_rules :: "(gtree list, nat) rules" where
  "tree_rules =
     \<lparr> pieces = (\<lambda>board piece_type color.
          if piece_type = PAWN
          then {0..<(if color then whites (cur board) else blacks (cur board))}
          else {}),
       is_game_over = (\<lambda>board. subtrees (cur board) = []),
       legal_moves = (\<lambda>board. [0..<length (subtrees (cur board))]),
       push = (\<lambda>move board.
          (if move < length (subtrees (cur board)) then subtrees (cur board) ! move
           else GNode 0 0 []) # board),
       pop = tl,
       turn = (\<lambda>board. odd (length board)) \<rparr>"

text \<open>
  White to move with two captures: move 0 takes a defended pawn (Black can
  recapture or not), move 1 takes a free pawn.
\<close>

definition capture_tree :: gtree where
  "capture_tree =
     GNode 2 2
       [GNode 2 1 [GNode 1 1 [], GNode 2 1 []],
        GNode 2 1 [GNode 2 1 [], GNode 2 1 []]]"

text \<open>
  White to move; after move 0 Black's best reply leaves White one pawn up, and
  after move 1 Black's first reply already leaves the material level, so the
  search of move 1 is cut off before Black's second reply (which wins three
  pawns) is looked at.
\<close>

definition prune_tree :: gtree where
  "prune_tree =
     GNode 3 3
       [GNode 3 3 [GNode 4 3 [], GNode 5 3 []],
        GNode 3 3 [GNode 3 3 [], GNode 0 3 []]]"

text \<open>
  White to move with two moves that win five and six pawns.
\<close>

definition cutoff_tree :: gtree where
  "cutoff_tree = GNode 3 3 [GNode 8 3 [], GNode 9 3 []]"


section \<open>Theorems\<close>

subsection \<open>Basic facts\<close>

lemma py_max_eq: "py_max a b = max a b"
  by (auto simp add: py_max_def max_def)

lemma py_min_eq: "py_min a b = min a b"
  by (auto simp add: py_min_def min_def)

subsection \<open>The evaluation\<close>

lemma upt_1_7: "[1..<7] = [PAWN, KNIGHT, BISHOP, ROOK, QUEEN, KING]"
  by (simp add: upt_rec PAWN_def KNIGHT_def BISHOP_def ROOK_def QUEEN_def KING_def)

lemma evaluate_board_sum:
  "evaluate_board R board =
     (int (card (pieces R board PAWN WHITE)) - int (card (pieces R board PAWN BLACK)))
   + (int (card (pieces R board KNIGHT WHITE)) - int (card (pieces R board KNIGHT BLACK)))
   + (int (card (pieces R board BISHOP WHITE)) - int (card (pieces R board BISHOP BLACK)))
   + (int (card (pieces R board ROOK WHITE)) - int (card (pieces R board ROOK BLACK)))
   + (int (card (pieces R board QUEEN WHITE)) - int (card (pieces R board QUEEN BLACK)))
   + (int (card (pieces R board KING WHITE)) - int (card (pieces R board KING BLACK)))"
  unfolding evaluate_board_def upt_1_7 by simp

lemma evaluate_board_same_material:
  assumes "\<And>k c. card (pieces R' board' k c) = card (pieces R board k c)"
  shows "evaluate_board R' board' = evaluate_board R board"
  by (simp add: evaluate_board_sum assms)

lemma tree_rules_simps:
  "pieces tree_rules board k c =
     (if k = PAWN then {0..<(if c then whites (cur board) else blacks (cur board))} else {})"
  "is_game_over tree_rules board = (subtrees (cur board) = [])"
  "legal_moves tree_rules board = [0..<length (subtrees (cur board))]"
  "push tree_rules move board =
     (if move < length (subtrees (cur board)) then subtrees (cur board) ! move
      else GNode 0 0 []) # board"
  "pop tree_rules board = tl board"
  "turn tree_rules board = odd (length board)"
  by (simp_all add: tree_rules_def)

lemma evaluate_board_tree_rules:
  "evaluate_board tree_rules board = int (whites (cur board)) - int (blacks (cur board))"
  by (simp add: evaluate_board_sum tree_rules_simps PAWN_def KNIGHT_def BISHOP_def ROOK_def
      QUEEN_def KING_def WHITE_def BLACK_def)

text \<open>
  C3. For every position, \<open>evaluate_board\<close> is the sum over the six piece kinds
  (pawn, knight, bishop, rook, queen, king) of the number of White pieces of the
  kind minus the number of Black pieces of the kind, each with weight 1 and with
  no other term. It is a function of the position alone (it only queries
  \<open>pieces\<close> and returns no board), and its value is an integer, so finite: it
  lies strictly between the two infinite scores, at a terminal position as at
  any other.
\<close>

theorem evaluate_board_material:
  "evaluate_board R board =
     (int (card (pieces R board PAWN WHITE)) - int (card (pieces R board PAWN BLACK)))
   + (int (card (pieces R board KNIGHT WHITE)) - int (card (pieces R board KNIGHT BLACK)))
   + (int (card (pieces R board BISHOP WHITE)) - int (card (pieces R board BISHOP BLACK)))
   + (int (card (pieces R board ROOK WHITE)) - int (card (pieces R board ROOK BLACK)))
   + (int (card (pieces R board QUEEN WHITE)) - int (card (pieces R board QUEEN BLACK)))
   + (int (card (pieces R board KING WHITE)) - int (card (pieces R board KING BLACK)))
   \<and> NInf < Fin (evaluate_board R board) \<and> Fin (evaluate_board R board) < PInf"
  by (simp add: evaluate_board_sum less_score_def)

subsection \<open>Zero depth and game over\<close>

text \<open>
  C4. For every position \<open>p\<close> and every maximizing flag \<open>m\<close>, the search at depth 0
  with the full window returns \<open>evaluate_board\<close> of \<open>p\<close> (and leaves the board as
  it is).
\<close>

theorem minimax_depth_zero:
  "minimax R p 0 NInf PInf m = Some (Fin (evaluate_board R p), p)"
  by (simp add: minimax.simps)

text \<open>
  C5. At a position that the rules library reports as game-over, for every
  remaining depth (negative ones too), window and maximizing flag, the search
  returns \<open>evaluate_board\<close> of that position and the board as it was. No move is
  enumerated or applied: the result is the same whatever \<open>legal_moves\<close>, \<open>push\<close>
  and \<open>pop\<close> are. The value is the material alone: a node with the same piece
  counts whose depth is exhausted gets the same value.
\<close>

theorem minimax_game_over:
  assumes "is_game_over R board"
  shows "minimax R board depth alpha beta mx = Some (Fin (evaluate_board R board), board)
    \<and> minimax (R\<lparr>legal_moves := lm, push := ps, pop := pp\<rparr>) board depth alpha beta mx
        = Some (Fin (evaluate_board R board), board)
    \<and> ((\<forall>k c. card (pieces R board' k c) = card (pieces R board k c)) \<longrightarrow>
         map_option fst (minimax R board' 0 alpha' beta' mx')
           = map_option fst (minimax R board depth alpha beta mx))"
proof -
  have a: "minimax R board depth alpha beta mx = Some (Fin (evaluate_board R board), board)"
    using assms by (simp add: minimax.simps)
  have "evaluate_board (R\<lparr>legal_moves := lm, push := ps, pop := pp\<rparr>) board = evaluate_board R board"
    by (rule evaluate_board_same_material) simp
  then have b: "minimax (R\<lparr>legal_moves := lm, push := ps, pop := pp\<rparr>) board depth alpha beta mx
        = Some (Fin (evaluate_board R board), board)"
    using assms by (simp add: minimax.simps)
  have c: "(\<forall>k c. card (pieces R board' k c) = card (pieces R board k c)) \<longrightarrow>
         map_option fst (minimax R board' 0 alpha' beta' mx')
           = map_option fst (minimax R board depth alpha beta mx)"
  proof
    assume "\<forall>k c. card (pieces R board' k c) = card (pieces R board k c)"
    then have "evaluate_board R board' = evaluate_board R board"
      by (intro evaluate_board_same_material) simp
    moreover have "minimax R board' 0 alpha' beta' mx' = Some (Fin (evaluate_board R board'), board')"
      by (simp add: minimax.simps)
    ultimately show "map_option fst (minimax R board' 0 alpha' beta' mx')
           = map_option fst (minimax R board depth alpha beta mx)"
      by (simp add: a)
  qed
  from a b c show ?thesis by blast
qed

theorem minimax_game_over_witness:
  "is_game_over tree_rules [GNode 1 2 []]
   \<and> minimax tree_rules [GNode 1 2 []] 3 (Fin 0) (Fin 5) True = Some (Fin (- 1), [GNode 1 2 []])
   \<and> minimax (tree_rules\<lparr>legal_moves := (\<lambda>b. [7]), push := (\<lambda>m b. []), pop := (\<lambda>b. [])\<rparr>)
        [GNode 1 2 []] 3 (Fin 0) (Fin 5) True = Some (Fin (- 1), [GNode 1 2 []])
   \<and> map_option fst (minimax tree_rules [GNode 1 2 [GNode 0 0 []]] 0 NInf PInf False) = Some (Fin (- 1))"
proof -
  have go: "is_game_over tree_rules [GNode 1 2 []]"
    by (simp add: tree_rules_simps)
  have same: "\<forall>k c. card (pieces tree_rules [GNode 1 2 [GNode 0 0 []]] k c)
                   = card (pieces tree_rules [GNode 1 2 []] k c)"
    by (simp add: tree_rules_simps)
  show ?thesis
    using minimax_game_over [OF go, where depth = 3 and alpha = "Fin 0" and beta = "Fin 5"
        and mx = True and lm = "\<lambda>b. [7]" and ps = "\<lambda>m b. []" and pp = "\<lambda>b. []"
        and board' = "[GNode 1 2 [GNode 0 0 []]]" and alpha' = NInf and beta' = PInf
        and mx' = False] go same
    by (simp add: evaluate_board_tree_rules)
qed

subsection \<open>Termination\<close>

lemma minimax_loop_returns:
  assumes "\<And>b a be m. \<exists>r. rec b (depth - 1) a be m = Some r"
  shows "\<exists>r. minimax_loop rec R board depth alpha beta mx best moves = Some r"
proof (induction moves arbitrary: board alpha beta best)
  case Nil
  show ?case by simp
next
  case (Cons move moves)
  obtain ev b1 where r: "rec (push R move board) (depth - 1) alpha beta (\<not> mx) = Some (ev, b1)"
    using assms by (metis surj_pair)
  show ?case
    using Cons.IH by (simp add: r Let_def)
qed

lemma minimax_returns_nat: "\<exists>r. minimax R board (int d) alpha beta mx = Some r"
proof (induction d arbitrary: board alpha beta mx)
  case 0
  show ?case by (simp add: minimax.simps)
next
  case (Suc d)
  have "\<And>b a be m. \<exists>r. minimax R b (int (Suc d) - 1) a be m = Some r"
    using Suc.IH by simp
  then have "\<exists>r. minimax_loop (minimax R) R board (int (Suc d)) alpha beta mx
               (if mx then NInf else PInf) (legal_moves R board) = Some r"
    by (rule minimax_loop_returns)
  then show ?case
    by (subst minimax.simps) auto
qed

lemma minimax_returns: "0 \<le> depth \<Longrightarrow> \<exists>r. minimax R board depth alpha beta mx = Some r"
  using minimax_returns_nat [of R board "nat depth" alpha beta mx] by simp

lemma get_best_move_loop_returns:
  assumes "0 \<le> depth - 1"
  shows "\<exists>r. get_best_move_loop R board depth bm bv moves = Some r"
proof (induction moves arbitrary: board bm bv)
  case Nil
  show ?case by simp
next
  case (Cons move moves)
  obtain v b2 where r: "minimax R (push R move board) (depth - 1) NInf PInf
       (\<not> turn R (push R move board)) = Some (v, b2)"
    using minimax_returns [OF assms] by (metis surj_pair)
  show ?case
    using Cons.IH by (simp add: r Let_def)
qed

lemma minimax_loop_depends_on_depth_pred:
  assumes "\<And>b a be m. rec1 b (depth - 1) a be m = rec2 b (depth - 1) a be m"
  shows "minimax_loop rec1 R board depth alpha beta mx best moves
       = minimax_loop rec2 R board depth alpha beta mx best moves"
proof (induction moves arbitrary: board alpha beta best)
  case Nil
  show ?case by simp
next
  case (Cons move moves)
  show ?case
  proof (cases "rec2 (push R move board) (depth - 1) alpha beta (\<not> mx)")
    case None
    then show ?thesis by (simp add: assms)
  next
    case (Some p)
    then show ?thesis by (cases p) (simp add: assms Cons.IH Let_def)
  qed
qed

text \<open>
  C10. For every position, window and maximizing flag, and every depth
  \<open>d \<ge> 0\<close>, the search returns (its result is not \<open>None\<close>), whatever the
  rules library is: depth 0 is a base case, and the loop consults the recursive
  call at \<open>depth - 1\<close> only, so two recursive calls that agree at that depth
  give the same loop. Consequently \<open>get_best_move\<close> returns for every depth
  \<open>d \<ge> 1\<close>.
\<close>

theorem search_terminates:
  "(0 \<le> depth \<longrightarrow> (\<exists>r. minimax R board depth alpha beta mx = Some r))
   \<and> (1 \<le> depth \<longrightarrow> (\<exists>r. get_best_move R board depth = Some r))
   \<and> minimax R board 0 alpha beta mx = Some (Fin (evaluate_board R board), board)
   \<and> ((\<forall>b a be m. rec1 b (depth - 1) a be m = rec2 b (depth - 1) a be m) \<longrightarrow>
        minimax_loop rec1 R board depth alpha beta mx best moves
          = minimax_loop rec2 R board depth alpha beta mx best moves)"
proof -
  have "0 \<le> depth \<longrightarrow> (\<exists>r. minimax R board depth alpha beta mx = Some r)"
    by (rule impI) (rule minimax_returns)
  moreover have "1 \<le> depth \<longrightarrow> (\<exists>r. get_best_move R board depth = Some r)"
  proof (rule impI)
    assume "1 \<le> depth"
    then have "0 \<le> depth - 1" by simp
    then show "\<exists>r. get_best_move R board depth = Some r"
      unfolding get_best_move_def by (rule get_best_move_loop_returns)
  qed
  moreover have "minimax R board 0 alpha beta mx = Some (Fin (evaluate_board R board), board)"
    by (simp add: minimax.simps)
  moreover have "(\<forall>b a be m. rec1 b (depth - 1) a be m = rec2 b (depth - 1) a be m) \<longrightarrow>
        minimax_loop rec1 R board depth alpha beta mx best moves
          = minimax_loop rec2 R board depth alpha beta mx best moves"
    using minimax_loop_depends_on_depth_pred [of rec1 depth rec2] by blast
  ultimately show ?thesis by blast
qed

theorem search_terminates_witness:
  "(0::int) \<le> 2 \<and> (\<exists>r. minimax tree_rules [capture_tree] 2 NInf PInf True = Some r)
   \<and> (1::int) \<le> 2 \<and> (\<exists>r. get_best_move tree_rules [capture_tree] 2 = Some r)
   \<and> minimax_loop (\<lambda>b d a be m. if d = 1 then minimax tree_rules b d a be m else None)
        tree_rules [capture_tree] 2 NInf PInf True NInf [0, 1]
      = minimax_loop (minimax tree_rules) tree_rules [capture_tree] 2 NInf PInf True NInf [0, 1]"
  using search_terminates [where depth = 2 and R = tree_rules and board = "[capture_tree]"
      and alpha = NInf and beta = PInf and mx = True and best = NInf and moves = "[0, 1]"
      and ?rec1.0 = "\<lambda>b d a be m. if d = 1 then minimax tree_rules b d a be m else None"
      and ?rec2.0 = "minimax tree_rules"]
  by simp

subsection \<open>The board after the search\<close>

lemma minimax_loop_keeps_board:
  assumes undo: "undo_ok R"
    and rec: "\<And>b d a be m v b'. rec b d a be m = Some (v, b') \<Longrightarrow> b' = b"
    and sub: "set moves \<subseteq> set (legal_moves R board)"
    and res: "minimax_loop rec R board depth alpha beta mx best moves = Some (v, board')"
  shows "board' = board"
  using sub res
proof (induction moves arbitrary: alpha beta best)
  case Nil
  then show ?case by simp
next
  case (Cons move moves)
  from Cons.prems(2) obtain ev b1 where
    r: "rec (push R move board) (depth - 1) alpha beta (\<not> mx) = Some (ev, b1)"
    by (auto simp: Option.bind_eq_Some_conv)
  then have b1: "b1 = push R move board" by (rule rec)
  have "move \<in> set (legal_moves R board)" using Cons.prems(1) by simp
  then have popped: "pop R b1 = board" using undo b1 by (simp add: undo_ok_def)
  from Cons.prems(1) have sub': "set moves \<subseteq> set (legal_moves R board)" by simp
  show ?case
    using Cons.prems(2) Cons.IH [OF sub']
    by (simp add: r popped Let_def split: if_splits)
qed

lemma minimax_keeps_board:
  assumes "minimax R board depth alpha beta mx = Some (v, board')" and "undo_ok R"
  shows "board' = board"
proof -
  have "undo_ok R \<longrightarrow> snd (v, board') = board"
  proof (rule minimax.raw_induct
      [where P = "\<lambda>R board depth alpha beta mx y. undo_ok R \<longrightarrow> snd y = board", OF _ assms(1)])
    fix mm :: "('a, 'b) rules \<Rightarrow> 'a \<Rightarrow> int \<Rightarrow> score \<Rightarrow> score \<Rightarrow> bool \<Rightarrow> (score \<times> 'a) option"
    fix R board depth alpha beta mx y
    assume ih: "\<And>R board depth alpha beta mx y.
        mm R board depth alpha beta mx = Some y \<Longrightarrow> undo_ok R \<longrightarrow> snd y = board"
    assume step: "(if depth = 0 \<or> is_game_over R board
        then Some (Fin (evaluate_board R board), board)
        else minimax_loop (mm R) R board depth alpha beta mx
               (if mx then NInf else PInf) (legal_moves R board)) = Some y"
    show "undo_ok R \<longrightarrow> snd y = board"
    proof
      assume undo: "undo_ok R"
      show "snd y = board"
      proof (cases "depth = 0 \<or> is_game_over R board")
        case True
        then show ?thesis using step by auto
      next
        case False
        then have l: "minimax_loop (mm R) R board depth alpha beta mx
            (if mx then NInf else PInf) (legal_moves R board) = Some (fst y, snd y)"
          using step by simp
        show ?thesis
          by (rule minimax_loop_keeps_board [OF undo _ _ l]) (use ih undo in auto)
      qed
    qed
  qed
  then show ?thesis using assms(2) by simp
qed

lemma get_best_move_loop_keeps_board:
  assumes undo: "undo_ok R"
    and sub: "set moves \<subseteq> set (legal_moves R board)"
    and res: "get_best_move_loop R board depth bm bv moves = Some (r, board')"
  shows "board' = board"
  using sub res
proof (induction moves arbitrary: bm bv)
  case Nil
  then show ?case by simp
next
  case (Cons move moves)
  from Cons.prems(2) obtain v b2 where
    r: "minimax R (push R move board) (depth - 1) NInf PInf (\<not> turn R (push R move board))
          = Some (v, b2)"
    by (auto simp: Option.bind_eq_Some_conv Let_def)
  then have b2: "b2 = push R move board"
    using undo by (rule minimax_keeps_board)
  have "move \<in> set (legal_moves R board)" using Cons.prems(1) by simp
  then have popped: "pop R b2 = board" using undo b2 by (simp add: undo_ok_def)
  from Cons.prems(1) have sub': "set moves \<subseteq> set (legal_moves R board)" by simp
  show ?case
    using Cons.prems(2) Cons.IH [OF sub']
    by (simp add: r popped Let_def split: if_splits)
qed

lemma minimax_returns_same_board:
  assumes "undo_ok R" and "0 \<le> depth"
  shows "\<exists>v. minimax R board depth alpha beta mx = Some (v, board)"
proof -
  obtain v b' where r: "minimax R board depth alpha beta mx = Some (v, b')"
    using minimax_returns [OF assms(2)] by (metis surj_pair)
  then have "b' = board" using assms(1) by (rule minimax_keeps_board)
  with r show ?thesis by blast
qed

lemma get_best_move_returns_same_board:
  assumes "undo_ok R" and "1 \<le> depth"
  shows "\<exists>mv. get_best_move R board depth = Some (mv, board)"
proof -
  from assms(2) have "0 \<le> depth - 1" by simp
  then obtain mv b' where r: "get_best_move_loop R board depth None
      (if turn R board then NInf else PInf) (legal_moves R board) = Some (mv, b')"
    using get_best_move_loop_returns by (metis surj_pair)
  have "b' = board"
    by (rule get_best_move_loop_keeps_board [OF assms(1) _ r]) simp
  with r show ?thesis by (auto simp: get_best_move_def)
qed

text \<open>
  C6. Provided the rules library's \<open>pop\<close> undoes its \<open>push\<close> of a legal move:
  whenever the search returns, for every depth, window and maximizing flag, and
  whenever \<open>get_best_move\<close> returns, for every depth, the board that comes back
  is the board that went in (hence the same pieces, the same side to move and
  the same legal moves of the library), on every path, the one through the alpha-beta
  \<^verbatim>\<open>break\<close> included. And they do return: the search for every depth \<open>\<ge> 0\<close>,
  \<open>get_best_move\<close> for every depth \<open>\<ge> 1\<close>.
\<close>

theorem search_restores_board:
  assumes "undo_ok R"
  shows "(minimax R board depth alpha beta mx = Some (v, board1) \<longrightarrow>
           board1 = board \<and> pieces R board1 = pieces R board
           \<and> turn R board1 = turn R board \<and> legal_moves R board1 = legal_moves R board)
    \<and> (get_best_move R board depth = Some (mv, board2) \<longrightarrow>
           board2 = board \<and> pieces R board2 = pieces R board
           \<and> turn R board2 = turn R board \<and> legal_moves R board2 = legal_moves R board)
    \<and> (0 \<le> depth \<longrightarrow> (\<exists>v. minimax R board depth alpha beta mx = Some (v, board)))
    \<and> (1 \<le> depth \<longrightarrow> (\<exists>mv. get_best_move R board depth = Some (mv, board)))"
proof -
  have "minimax R board depth alpha beta mx = Some (v, board1) \<longrightarrow> board1 = board"
    by (rule impI) (rule minimax_keeps_board [OF _ assms])
  moreover have "get_best_move R board depth = Some (mv, board2) \<longrightarrow> board2 = board"
  proof
    assume "get_best_move R board depth = Some (mv, board2)"
    then have r: "get_best_move_loop R board depth None
      (if turn R board then NInf else PInf) (legal_moves R board) = Some (mv, board2)"
      by (simp add: get_best_move_def)
    show "board2 = board"
      by (rule get_best_move_loop_keeps_board [OF assms _ r]) simp
  qed
  moreover have "0 \<le> depth \<longrightarrow> (\<exists>v. minimax R board depth alpha beta mx = Some (v, board))"
    by (rule impI) (rule minimax_returns_same_board [OF assms])
  moreover have "1 \<le> depth \<longrightarrow> (\<exists>mv. get_best_move R board depth = Some (mv, board))"
    by (rule impI) (rule get_best_move_returns_same_board [OF assms])
  ultimately show ?thesis by blast
qed

lemma undo_ok_tree_rules: "undo_ok tree_rules"
  by (simp add: undo_ok_def tree_rules_simps)


lemma push_flips_turn_tree_rules: "push_flips_turn tree_rules"
  by (simp add: push_flips_turn_def tree_rules_simps)

theorem search_restores_board_witness:
  "undo_ok tree_rules
   \<and> minimax tree_rules [prune_tree] 2 NInf PInf True = Some (Fin 1, [prune_tree])
   \<and> get_best_move tree_rules [prune_tree] 2 = Some (Some 0, [prune_tree])
   \<and> (0::int) \<le> 2 \<and> (\<exists>v. minimax tree_rules [prune_tree] 2 NInf PInf True = Some (v, [prune_tree]))
   \<and> (1::int) \<le> 2 \<and> (\<exists>mv. get_best_move tree_rules [prune_tree] 2 = Some (mv, [prune_tree]))"
proof -
  have a: "minimax tree_rules [prune_tree] 2 NInf PInf True = Some (Fin 1, [prune_tree])"
    by code_simp
  have b: "get_best_move tree_rules [prune_tree] 2 = Some (Some 0, [prune_tree])"
    by code_simp
  show ?thesis
    using search_restores_board [OF undo_ok_tree_rules, where board = "[prune_tree]"
        and depth = 2 and alpha = NInf and beta = PInf and mx = True and v = "Fin 1"
        and ?board1.0 = "[prune_tree]" and mv = "Some 0" and ?board2.0 = "[prune_tree]"]
      undo_ok_tree_rules a b
    by simp
qed

subsection \<open>Finite values\<close>

lemma score_less_simps:
  "NInf < Fin i" "Fin i < PInf" "NInf < PInf" "\<not> Fin i < NInf" "\<not> PInf < Fin i"
  "\<not> PInf < NInf" "(Fin i < Fin j) = (i < j)" "\<not> x < NInf" "\<not> PInf < x"
  by (cases x; auto simp add: less_score_def)+

lemma score_le_simps:
  "NInf \<le> x" "x \<le> PInf" "(Fin i \<le> Fin j) = (i \<le> j)" "\<not> Fin i \<le> NInf" "\<not> PInf \<le> Fin i"
  "\<not> PInf \<le> NInf"
  by (cases x; auto simp add: less_eq_score_def)+











subsection \<open>The selected move\<close>










subsection \<open>Pruning does not change the value\<close>

lemma fail_soft_refl: "fail_soft a b x x"
  by (simp add: fail_soft_def)

lemma fail_soft_full_window: "fail_soft NInf PInf v x \<Longrightarrow> v = x"
  by (cases v; cases x) (auto simp add: fail_soft_def score_less_simps score_le_simps)

lemma fold_max_ge: "acc \<le> fold (\<lambda>v best. max best v) vs (acc :: score)"
proof (induction vs arbitrary: acc)
  case Nil
  show ?case by simp
next
  case (Cons v vs)
  have "acc \<le> max acc v" by simp
  also have "\<dots> \<le> fold (\<lambda>v best. max best v) vs (max acc v)" by (rule Cons.IH)
  finally show ?case by simp
qed

lemma fold_min_le: "fold (\<lambda>v best. min best v) vs (acc :: score) \<le> acc"
proof (induction vs arbitrary: acc)
  case Nil
  show ?case by simp
next
  case (Cons v vs)
  have "fold (\<lambda>v best. min best v) vs (min acc v) \<le> min acc v" by (rule Cons.IH)
  also have "\<dots> \<le> acc" by simp
  finally show ?case by simp
qed

text \<open>One iteration of the maximizing loop without cutoff keeps the loop invariant.\<close>

lemma max_step_invariant:
  fixes a0 b alpha best s m M :: score
  assumes "alpha = max a0 best" and "fail_soft alpha b s m" and "max alpha s < b"
    and "(best \<le> a0 \<longrightarrow> M \<le> best) \<and> (a0 < best \<longrightarrow> best = M)"
  shows "max alpha s = max a0 (max best s)
       \<and> (max best s \<le> a0 \<longrightarrow> max M m \<le> max best s)
       \<and> (a0 < max best s \<longrightarrow> max best s = max M m)"
  using assms unfolding fail_soft_def
  by (auto simp add: max_def split: if_splits)

lemma max_step_cutoff:
  fixes a0 b alpha best s m M X :: score
  assumes "alpha = max a0 best" and "fail_soft alpha b s m" and "alpha < b" and "a0 < b"
    and "b \<le> max alpha s" and "max M m \<le> X"
  shows "fail_soft a0 b (max best s) X"
  using assms unfolding fail_soft_def
  by (auto simp add: max_def split: if_splits)

lemma min_step_invariant:
  fixes a b0 beta best s m M :: score
  assumes "beta = min b0 best" and "fail_soft a beta s m" and "a < min beta s"
    and "(b0 \<le> best \<longrightarrow> best \<le> M) \<and> (best < b0 \<longrightarrow> best = M)"
  shows "min beta s = min b0 (min best s)
       \<and> (b0 \<le> min best s \<longrightarrow> min best s \<le> min M m)
       \<and> (min best s < b0 \<longrightarrow> min best s = min M m)"
  using assms unfolding fail_soft_def
  by (auto simp add: min_def split: if_splits)

lemma min_step_cutoff:
  fixes a b0 beta best s m M X :: score
  assumes "beta = min b0 best" and "fail_soft a beta s m" and "a < beta" and "a < b0"
    and "min beta s \<le> a" and "X \<le> min M m"
  shows "fail_soft a b0 (min best s) X"
  using assms unfolding fail_soft_def
  by (auto simp add: min_def split: if_splits)


lemma minimax_loop_max_fail_soft:
  assumes undo: "undo_ok R"
    and rec: "\<And>move a b. move \<in> set (legal_moves R board) \<Longrightarrow> a < b \<Longrightarrow>
        \<exists>s. rec (push R move board) (depth - 1) a b False = Some (s, push R move board)
           \<and> fail_soft a b s (tv move)"
    and window: "a0 < b"
  shows "set moves \<subseteq> set (legal_moves R board) \<Longrightarrow> alpha = max a0 best \<Longrightarrow> alpha < b \<Longrightarrow>
     (best \<le> a0 \<longrightarrow> M \<le> best) \<and> (a0 < best \<longrightarrow> best = M) \<Longrightarrow>
     \<exists>v. minimax_loop rec R board depth alpha b True best moves = Some (v, board)
        \<and> fail_soft a0 b v (fold (\<lambda>v best. max best v) (map tv moves) M)"
proof (induction moves arbitrary: alpha best M)
  case Nil
  then show ?case by (auto simp add: fail_soft_def max_def split: if_splits)
next
  case (Cons move moves)
  have legal: "move \<in> set (legal_moves R board)" using Cons.prems(1) by simp
  from rec [OF legal Cons.prems(3)] obtain s where
    r: "rec (push R move board) (depth - 1) alpha b False = Some (s, push R move board)"
    and fs: "fail_soft alpha b s (tv move)"
    by blast
  have popped: "pop R (push R move board) = board"
    using undo legal by (simp add: undo_ok_def)
  show ?case
  proof (cases "b \<le> max alpha s")
    case True
    have "max M (tv move) \<le> fold (\<lambda>v best. max best v) (map tv moves) (max M (tv move))"
      by (rule fold_max_ge)
    then have "fail_soft a0 b (max best s)
        (fold (\<lambda>v best. max best v) (map tv moves) (max M (tv move)))"
      using max_step_cutoff [OF Cons.prems(2) fs Cons.prems(3) window True] by blast
    moreover have "minimax_loop rec R board depth alpha b True best (move # moves)
        = Some (max best s, board)"
      using True by (simp add: r popped Let_def py_max_eq)
    ultimately show ?thesis by simp
  next
    case False
    then have lt: "max alpha s < b" by (simp only: not_le)
    from max_step_invariant [OF Cons.prems(2) fs lt Cons.prems(4)]
    have a': "max alpha s = max a0 (max best s)"
      and inv': "(max best s \<le> a0 \<longrightarrow> max M (tv move) \<le> max best s)
         \<and> (a0 < max best s \<longrightarrow> max best s = max M (tv move))"
      by blast+
    have sub: "set moves \<subseteq> set (legal_moves R board)" using Cons.prems(1) by simp
    from Cons.IH [OF sub a' lt inv'] obtain v where
      v: "minimax_loop rec R board depth (max alpha s) b True (max best s) moves = Some (v, board)"
      and fv: "fail_soft a0 b v (fold (\<lambda>v best. max best v) (map tv moves) (max M (tv move)))"
      by blast
    have "minimax_loop rec R board depth alpha b True best (move # moves) = Some (v, board)"
      using False v by (simp add: r popped Let_def py_max_eq)
    with fv show ?thesis by simp
  qed
qed

lemma minimax_loop_min_fail_soft:
  assumes undo: "undo_ok R"
    and rec: "\<And>move a b. move \<in> set (legal_moves R board) \<Longrightarrow> a < b \<Longrightarrow>
        \<exists>s. rec (push R move board) (depth - 1) a b True = Some (s, push R move board)
           \<and> fail_soft a b s (tv move)"
    and window: "a < b0"
  shows "set moves \<subseteq> set (legal_moves R board) \<Longrightarrow> beta = min b0 best \<Longrightarrow> a < beta \<Longrightarrow>
     (b0 \<le> best \<longrightarrow> best \<le> M) \<and> (best < b0 \<longrightarrow> best = M) \<Longrightarrow>
     \<exists>v. minimax_loop rec R board depth a beta False best moves = Some (v, board)
        \<and> fail_soft a b0 v (fold (\<lambda>v best. min best v) (map tv moves) M)"
proof (induction moves arbitrary: beta best M)
  case Nil
  then show ?case by (auto simp add: fail_soft_def min_def split: if_splits)
next
  case (Cons move moves)
  have legal: "move \<in> set (legal_moves R board)" using Cons.prems(1) by simp
  from rec [OF legal Cons.prems(3)] obtain s where
    r: "rec (push R move board) (depth - 1) a beta True = Some (s, push R move board)"
    and fs: "fail_soft a beta s (tv move)"
    by blast
  have popped: "pop R (push R move board) = board"
    using undo legal by (simp add: undo_ok_def)
  show ?case
  proof (cases "min beta s \<le> a")
    case True
    have "fold (\<lambda>v best. min best v) (map tv moves) (min M (tv move)) \<le> min M (tv move)"
      by (rule fold_min_le)
    then have "fail_soft a b0 (min best s)
        (fold (\<lambda>v best. min best v) (map tv moves) (min M (tv move)))"
      using min_step_cutoff [OF Cons.prems(2) fs Cons.prems(3) window True] by blast
    moreover have "minimax_loop rec R board depth a beta False best (move # moves)
        = Some (min best s, board)"
      using True by (simp add: r popped Let_def py_min_eq)
    ultimately show ?thesis by simp
  next
    case False
    then have lt: "a < min beta s" by (simp only: not_le)
    from min_step_invariant [OF Cons.prems(2) fs lt Cons.prems(4)]
    have b': "min beta s = min b0 (min best s)"
      and inv': "(b0 \<le> min best s \<longrightarrow> min best s \<le> min M (tv move))
         \<and> (min best s < b0 \<longrightarrow> min best s = min M (tv move))"
      by blast+
    have sub: "set moves \<subseteq> set (legal_moves R board)" using Cons.prems(1) by simp
    from Cons.IH [OF sub b' lt inv'] obtain v where
      v: "minimax_loop rec R board depth a (min beta s) False (min best s) moves = Some (v, board)"
      and fv: "fail_soft a b0 v (fold (\<lambda>v best. min best v) (map tv moves) (min M (tv move)))"
      by blast
    have "minimax_loop rec R board depth a beta False best (move # moves) = Some (v, board)"
      using False v by (simp add: r popped Let_def py_min_eq)
    with fv show ?thesis by simp
  qed
qed


lemma max_NInf: "a = max a NInf"
  by (cases a) (simp_all add: max_def score_le_simps)

lemma min_PInf: "b = min b PInf"
  by (cases b) (simp_all add: min_def score_le_simps)

lemma minimax_fail_soft:
  assumes undo: "undo_ok R"
  shows "a < b \<Longrightarrow>
     \<exists>v. minimax R board (int d) a b mx = Some (v, board)
        \<and> fail_soft a b v (exhaustive_minimax R board d mx)"
proof (induction d arbitrary: board a b mx)
  case 0
  show ?case by (simp add: minimax.simps fail_soft_refl)
next
  case (Suc d)
  show ?case
  proof (cases "is_game_over R board")
    case True
    then show ?thesis by (simp add: minimax.simps fail_soft_refl)
  next
    case False
    have unfold: "minimax R board (int (Suc d)) a b mx
        = minimax_loop (minimax R) R board (int (Suc d)) a b mx
            (if mx then NInf else PInf) (legal_moves R board)"
      using False by (subst minimax.simps) simp
    have depth: "int (Suc d) - 1 = int d" by simp
    show ?thesis
    proof (cases mx)
      case True
      have rec: "\<And>move a b. move \<in> set (legal_moves R board) \<Longrightarrow> a < b \<Longrightarrow>
          \<exists>s. minimax R (push R move board) (int (Suc d) - 1) a b False
                = Some (s, push R move board)
             \<and> fail_soft a b s (exhaustive_minimax R (push R move board) d False)"
        unfolding depth using Suc.IH by blast
      have "\<exists>v. minimax_loop (minimax R) R board (int (Suc d)) a b True NInf (legal_moves R board)
               = Some (v, board)
            \<and> fail_soft a b v (fold (\<lambda>v best. max best v)
                 (map (\<lambda>move. exhaustive_minimax R (push R move board) d False)
                    (legal_moves R board)) NInf)"
        by (rule minimax_loop_max_fail_soft
              [where rec = "minimax R" and depth = "int (Suc d)"
                and tv = "\<lambda>move. exhaustive_minimax R (push R move board) d False",
                OF undo rec Suc.prems subset_refl max_NInf Suc.prems])
          (auto simp add: score_less_simps)
      then obtain v where
        l: "minimax_loop (minimax R) R board (int (Suc d)) a b True NInf (legal_moves R board)
               = Some (v, board)"
        and f: "fail_soft a b v (fold (\<lambda>v best. max best v)
                 (map (\<lambda>move. exhaustive_minimax R (push R move board) d False)
                    (legal_moves R board)) NInf)"
        by blast
      have "minimax R board (int (Suc d)) a b mx = Some (v, board)"
        unfolding unfold using True l by simp
      moreover have "fail_soft a b v (exhaustive_minimax R board (Suc d) mx)"
        using True False f by (simp add: best_of_def)
      ultimately show ?thesis by blast
    next
      case mn: False
      have rec: "\<And>move a b. move \<in> set (legal_moves R board) \<Longrightarrow> a < b \<Longrightarrow>
          \<exists>s. minimax R (push R move board) (int (Suc d) - 1) a b True
                = Some (s, push R move board)
             \<and> fail_soft a b s (exhaustive_minimax R (push R move board) d True)"
        unfolding depth using Suc.IH by blast
      have "\<exists>v. minimax_loop (minimax R) R board (int (Suc d)) a b False PInf (legal_moves R board)
               = Some (v, board)
            \<and> fail_soft a b v (fold (\<lambda>v best. min best v)
                 (map (\<lambda>move. exhaustive_minimax R (push R move board) d True)
                    (legal_moves R board)) PInf)"
        by (rule minimax_loop_min_fail_soft
              [where rec = "minimax R" and depth = "int (Suc d)"
                and tv = "\<lambda>move. exhaustive_minimax R (push R move board) d True",
                OF undo rec Suc.prems subset_refl min_PInf Suc.prems])
          (auto simp add: score_less_simps)
      then obtain v where
        l: "minimax_loop (minimax R) R board (int (Suc d)) a b False PInf (legal_moves R board)
               = Some (v, board)"
        and f: "fail_soft a b v (fold (\<lambda>v best. min best v)
                 (map (\<lambda>move. exhaustive_minimax R (push R move board) d True)
                    (legal_moves R board)) PInf)"
        by blast
      have "minimax R board (int (Suc d)) a b mx = Some (v, board)"
        unfolding unfold using mn l by simp
      moreover have "fail_soft a b v (exhaustive_minimax R board (Suc d) mx)"
        using mn False f by (simp add: best_of_def)
      ultimately show ?thesis by blast
    qed
  qed
qed

text \<open>
  C2. Provided the rules library's \<open>pop\<close> undoes its \<open>push\<close> (which is what
  makes the positions visited by the search a tree): for every position, every
  depth \<open>d \<ge> 0\<close> and every maximizing flag, the search with the full window
  returns exactly the value of the unpruned exhaustive minimax of depth \<open>d\<close>
  (and the board it was given). The cutoff changes the work, not the value.
\<close>

theorem pruning_preserves_value:
  assumes "undo_ok R" and "0 \<le> depth"
  shows "minimax R board depth NInf PInf mx
       = Some (exhaustive_minimax R board (nat depth) mx, board)"
proof -
  have "NInf < PInf" by (simp add: score_less_simps)
  from minimax_fail_soft [OF assms(1) this, of board "nat depth" mx] obtain v where
    v: "minimax R board (int (nat depth)) NInf PInf mx = Some (v, board)"
    and fs: "fail_soft NInf PInf v (exhaustive_minimax R board (nat depth) mx)"
    by blast
  from fs have "v = exhaustive_minimax R board (nat depth) mx"
    by (rule fail_soft_full_window)
  with v assms(2) show ?thesis by simp
qed

theorem pruning_preserves_value_witness:
  "undo_ok tree_rules \<and> (0::int) \<le> 2
   \<and> minimax tree_rules [prune_tree] 2 NInf PInf True = Some (Fin 1, [prune_tree])
   \<and> exhaustive_minimax tree_rules [prune_tree] (nat 2) True = Fin 1
   \<and> minimax tree_rules (push tree_rules 1 [prune_tree]) 1 (Fin 1) PInf False
       = Some (Fin 0, push tree_rules 1 [prune_tree])
   \<and> exhaustive_minimax tree_rules (push tree_rules 1 [prune_tree]) 1 False = Fin (- 3)"
proof -
  have e: "exhaustive_minimax tree_rules [prune_tree] (nat 2) True = Fin 1"
    by code_simp
  have p: "minimax tree_rules (push tree_rules 1 [prune_tree]) 1 (Fin 1) PInf False
       = Some (Fin 0, push tree_rules 1 [prune_tree])"
    by code_simp
  have x: "exhaustive_minimax tree_rules (push tree_rules 1 [prune_tree]) 1 False = Fin (- 3)"
    by code_simp
  show ?thesis
    using pruning_preserves_value [OF undo_ok_tree_rules, of 2 "[prune_tree]" True]
      undo_ok_tree_rules e p x
    by simp
qed

subsection \<open>The window update and the cutoff\<close>

text \<open>
  C8. At every node that the search expands (depth not 0, not game over) it
  runs the loop over the legal moves, and in the loop, once the child of a move
  is scored with \<open>ev\<close>: in the maximizing branch alpha becomes
  \<open>max alpha ev\<close> and the running best \<open>max best ev\<close>, in the minimizing branch
  beta becomes \<open>min beta ev\<close> and the running best \<open>min best ev\<close>; if then
  \<open>beta \<le> alpha\<close>, the loop returns the running best at once, whatever the
  remaining sibling moves are (none of them is expanded), and otherwise it goes
  on with the next sibling and the updated window. The value returned at a
  cutoff is the running best, not a bound of the window.
\<close>

theorem alpha_beta_update_and_cutoff:
  assumes "rec (push R move board) (depth - 1) alpha beta (\<not> mx) = Some (ev, board1)"
  shows "(mx \<longrightarrow>
           minimax_loop rec R board depth alpha beta mx best (move # rest)
           = (if beta \<le> max alpha ev then Some (max best ev, pop R board1)
              else minimax_loop rec R (pop R board1) depth (max alpha ev) beta mx
                     (max best ev) rest))
       \<and> (\<not> mx \<longrightarrow>
           minimax_loop rec R board depth alpha beta mx best (move # rest)
           = (if min beta ev \<le> alpha then Some (min best ev, pop R board1)
              else minimax_loop rec R (pop R board1) depth alpha (min beta ev) mx
                     (min best ev) rest))
       \<and> (depth \<noteq> 0 \<and> \<not> is_game_over R board \<longrightarrow>
           minimax R board depth alpha beta mx
           = minimax_loop (minimax R) R board depth alpha beta mx
               (if mx then NInf else PInf) (legal_moves R board))"
proof -
  have a: "mx \<longrightarrow>
           minimax_loop rec R board depth alpha beta mx best (move # rest)
           = (if beta \<le> max alpha ev then Some (max best ev, pop R board1)
              else minimax_loop rec R (pop R board1) depth (max alpha ev) beta mx
                     (max best ev) rest)"
  proof (rule impI)
    assume mx
    with assms have "rec (push R move board) (depth - 1) alpha beta False = Some (ev, board1)"
      by simp
    with \<open>mx\<close> show "minimax_loop rec R board depth alpha beta mx best (move # rest)
           = (if beta \<le> max alpha ev then Some (max best ev, pop R board1)
              else minimax_loop rec R (pop R board1) depth (max alpha ev) beta mx
                     (max best ev) rest)"
      by (simp add: Let_def py_max_eq)
  qed
  have b: "\<not> mx \<longrightarrow>
           minimax_loop rec R board depth alpha beta mx best (move # rest)
           = (if min beta ev \<le> alpha then Some (min best ev, pop R board1)
              else minimax_loop rec R (pop R board1) depth alpha (min beta ev) mx
                     (min best ev) rest)"
  proof (rule impI)
    assume "\<not> mx"
    with assms have "rec (push R move board) (depth - 1) alpha beta True = Some (ev, board1)"
      by simp
    with \<open>\<not> mx\<close> show "minimax_loop rec R board depth alpha beta mx best (move # rest)
           = (if min beta ev \<le> alpha then Some (min best ev, pop R board1)
              else minimax_loop rec R (pop R board1) depth alpha (min beta ev) mx
                     (min best ev) rest)"
      by (simp add: Let_def py_min_eq)
  qed
  have c: "depth \<noteq> 0 \<and> \<not> is_game_over R board \<longrightarrow>
           minimax R board depth alpha beta mx
           = minimax_loop (minimax R) R board depth alpha beta mx
               (if mx then NInf else PInf) (legal_moves R board)"
    by (subst minimax.simps) simp
  from a b c show ?thesis by blast
qed

theorem alpha_beta_update_and_cutoff_witness:
  "minimax tree_rules (push tree_rules 0 [cutoff_tree]) (1 - 1) (Fin 1) (Fin 2) (\<not> True)
     = Some (Fin 5, push tree_rules 0 [cutoff_tree])
   \<and> minimax_loop (minimax tree_rules) tree_rules [cutoff_tree] 1 (Fin 1) (Fin 2) True NInf (0 # [1])
     = Some (Fin 5, [cutoff_tree])
   \<and> minimax tree_rules (push tree_rules 0 (push tree_rules 1 [prune_tree])) (1 - 1) (Fin 1) PInf
       (\<not> False)
     = Some (Fin 0, push tree_rules 0 (push tree_rules 1 [prune_tree]))
   \<and> minimax_loop (minimax tree_rules) tree_rules (push tree_rules 1 [prune_tree]) 1 (Fin 1) PInf
       False PInf (0 # [1])
     = Some (Fin 0, push tree_rules 1 [prune_tree])
   \<and> (1::int) \<noteq> 0 \<and> \<not> is_game_over tree_rules [cutoff_tree]
   \<and> minimax tree_rules [cutoff_tree] 1 (Fin 1) (Fin 2) True = Some (Fin 5, [cutoff_tree])"
proof -
  have r1: "minimax tree_rules (push tree_rules 0 [cutoff_tree]) (1 - 1) (Fin 1) (Fin 2) (\<not> True)
     = Some (Fin 5, push tree_rules 0 [cutoff_tree])"
    by code_simp
  have r2: "minimax tree_rules (push tree_rules 0 (push tree_rules 1 [prune_tree])) (1 - 1)
       (Fin 1) PInf (\<not> False)
     = Some (Fin 0, push tree_rules 0 (push tree_rules 1 [prune_tree]))"
    by code_simp
  have p1: "pop tree_rules (push tree_rules 0 [cutoff_tree]) = [cutoff_tree]"
    by (simp add: tree_rules_simps)
  have p2: "pop tree_rules (push tree_rules 0 (push tree_rules 1 [prune_tree]))
      = push tree_rules 1 [prune_tree]"
    by (simp add: tree_rules_simps)
  have g: "\<not> is_game_over tree_rules [cutoff_tree]"
    by (simp add: tree_rules_simps cutoff_tree_def)
  have lm: "legal_moves tree_rules [cutoff_tree] = 0 # [1]"
    by (simp add: tree_rules_simps cutoff_tree_def upt_rec)
  have m1: "max (Fin 1) (Fin 5) = Fin 5" "max NInf (Fin 5) = Fin 5" "Fin 2 \<le> Fin 5"
    by (simp_all add: max_def score_le_simps)
  have m2: "min PInf (Fin 0) = Fin 0" "Fin 0 \<le> Fin 1"
    by (simp_all add: min_def score_le_simps)
  note t1 = alpha_beta_update_and_cutoff [where rec = "minimax tree_rules" and R = tree_rules
      and move = 0 and board = "[cutoff_tree]" and depth = 1 and alpha = "Fin 1"
      and beta = "Fin 2" and mx = True and best = NInf and rest = "[1]", OF r1]
  note t2 = alpha_beta_update_and_cutoff [where rec = "minimax tree_rules" and R = tree_rules
      and move = 0 and board = "push tree_rules 1 [prune_tree]" and depth = 1
      and alpha = "Fin 1" and beta = PInf and mx = False and best = PInf and rest = "[1]",
      OF r2]
  have nf: "\<not> False" by simp
  have live: "(1::int) \<noteq> 0 \<and> \<not> is_game_over tree_rules [cutoff_tree]"
    using g by simp
  note e1 = t1 [THEN conjunct1, THEN mp, OF TrueI]
  note e2 = t2 [THEN conjunct2, THEN conjunct1, THEN mp, OF nf]
  note e3 = t1 [THEN conjunct2, THEN conjunct2, THEN mp, OF live]
  have l1: "minimax_loop (minimax tree_rules) tree_rules [cutoff_tree] 1 (Fin 1) (Fin 2) True NInf
      (0 # [1]) = Some (Fin 5, [cutoff_tree])"
    unfolding e1 by (simp only: m1 p1 if_True)
  have l2: "minimax_loop (minimax tree_rules) tree_rules (push tree_rules 1 [prune_tree]) 1
      (Fin 1) PInf False PInf (0 # [1]) = Some (Fin 0, push tree_rules 1 [prune_tree])"
    unfolding e2 by (simp only: m2 p2 if_True)
  have n: "minimax tree_rules [cutoff_tree] 1 (Fin 1) (Fin 2) True = Some (Fin 5, [cutoff_tree])"
    unfolding e3 by (simp only: if_True lm l1)
  from r1 l1 r2 l2 g n show ?thesis by (simp only: simp_thms)
qed

subsection \<open>The flag that the root passes\<close>

lemma root_flag_is_root_turn:
  assumes "push_flips_turn R" and "move \<in> set (legal_moves R board)"
  shows "(\<not> turn R (push R move board)) = turn R board"
  using assms by (auto simp add: push_flips_turn_def)

text \<open>
  C1. \<open>get_best_move\<close> applies each legal root move in turn, searches the
  resulting position with \<open>depth - 1\<close> and the full window, and undoes the
  move. The maximizing flag it passes is the negation of the turn read after
  the move is applied, that is, of the child's side to move: with White to move
  at the root the children (Black to move) are searched as maximizing nodes,
  not as minimizing ones. On \<open>capture_tree\<close> at depth 2 this makes
  \<open>get_best_move\<close> return move 0, the capture that can be retaken, where the
  specification's selector (flag flipped relative to the root's side) returns
  move 1, the free capture.
\<close>

theorem get_best_move_child_flag_example:
  "turn tree_rules [capture_tree] = WHITE
   \<and> turn tree_rules (push tree_rules 0 [capture_tree]) = BLACK
   \<and> (\<not> turn tree_rules (push tree_rules 0 [capture_tree])) = True
   \<and> get_best_move tree_rules [capture_tree] 2 = Some (Some 0, [capture_tree])
   \<and> select_best_move_spec tree_rules [capture_tree] 2 = Some (Some 1, [capture_tree])"
proof -
  have a: "get_best_move tree_rules [capture_tree] 2 = Some (Some 0, [capture_tree])"
    by code_simp
  have b: "select_best_move_spec tree_rules [capture_tree] 2 = Some (Some 1, [capture_tree])"
    by code_simp
  from a b show ?thesis
    by (simp add: tree_rules_simps WHITE_def BLACK_def)
qed

end
